theory Spec2Isabelle
  imports Main "HOL-Library.Monad_Syntax"
begin

section \<open>Points and the orientation predicate\<close>

text \<open>
  Modelled from the spec: the header \<^verbatim>\<open>geom/primitives/contour.h\<close> with
  \<^verbatim>\<open>point_type\<close>, its subtraction, the cross product \<^verbatim>\<open>^\<close> and its comparison
  operators is not among the sources.  The spec (section 3) gives a point as a pair of
  coordinates \<open>(x, y)\<close>, ordered lexicographically by \<open>x\<close>, then \<open>y\<close>, with exact
  coordinate equality, a subtraction yielding a displacement and a scalar 2D cross
  product of two displacements whose exact sign is used.  Coordinates are taken as
  mathematical integers.
\<close>

datatype point = Point (px: int) (py: int)

type_synonym vector_type = "int \<times> int"

definition point_sub :: "point \<Rightarrow> point \<Rightarrow> vector_type" where
  "point_sub b a = (px b - px a, py b - py a)"

definition cross :: "vector_type \<Rightarrow> vector_type \<Rightarrow> int" where
  "cross v1 v2 = fst v1 * snd v2 - snd v1 * fst v2"

instantiation point :: linorder
begin

definition less_point :: "point \<Rightarrow> point \<Rightarrow> bool" where
  "less_point a b \<longleftrightarrow> px a < px b \<or> (px a = px b \<and> py a < py b)"

definition less_eq_point :: "point \<Rightarrow> point \<Rightarrow> bool" where
  "less_eq_point a b \<longleftrightarrow> px a < px b \<or> (px a = px b \<and> py a \<le> py b)"

instance
proof
  fix a b c :: point
  show "a < b \<longleftrightarrow> a \<le> b \<and> \<not> b \<le> a"
    by (auto simp: less_point_def less_eq_point_def)
  show "a \<le> a"
    by (simp add: less_eq_point_def)
  show "a \<le> b \<Longrightarrow> b \<le> c \<Longrightarrow> a \<le> c"
    by (auto simp: less_eq_point_def)
  show "a \<le> b \<Longrightarrow> b \<le> a \<Longrightarrow> a = b"
    by (cases a; cases b) (auto simp: less_eq_point_def)
  show "a \<le> b \<or> b \<le> a"
    by (auto simp: less_eq_point_def)
qed

end

text \<open>\<^verbatim>\<open>enum turn_type { COLLINEAR = 0, LEFT, RIGHT }\<close>\<close>

datatype turn_type = COLLINEAR | LEFT | RIGHT

text \<open>\<^verbatim>\<open>sgn\<close> of the source; the name \<open>sgn\<close> is taken in HOL.\<close>

definition sgn_scalar :: "int \<Rightarrow> int" where
  "sgn_scalar x = (if x = 0 then 0 else (if x < 0 then - 1 else 1))"

definition turn :: "point \<Rightarrow> point \<Rightarrow> point \<Rightarrow> turn_type" where
  "turn a b c =
     (let v1 = point_sub b a;
          v2 = point_sub c a;
          sign = sgn_scalar (cross v1 v2)
      in if sign = - 1 then RIGHT
         else if sign = 1 then LEFT
         else COLLINEAR)"

section \<open>Contours, builders and circulators\<close>

text \<open>
  \<^verbatim>\<open>contour_type\<close> wraps the vector \<^verbatim>\<open>pts_\<close>; \<^verbatim>\<open>contour_builder_type\<close> owns a
  growing vector, \<^verbatim>\<open>add_point\<close> is \<^verbatim>\<open>push_back\<close> and \<^verbatim>\<open>get_result\<close> moves the
  vector into a contour.
\<close>

type_synonym contour_type = "point list"

type_synonym contour_builder_type = "point list"

definition empty_builder :: contour_builder_type where
  "empty_builder = []"

definition add_point :: "contour_builder_type \<Rightarrow> point \<Rightarrow> contour_builder_type" where
  "add_point builder pt = builder @ [pt]"

definition get_result :: "contour_builder_type \<Rightarrow> contour_type" where
  "get_result builder = builder"

text \<open>
  Modelled from the spec: \<^verbatim>\<open>contour_circulator\<close> is declared in the absent header.
  The spec (sections 3 and 9) gives it as a contour handle plus an index; stepping
  forward or backward is index arithmetic modulo the length; dereferencing yields the
  point at the index; two circulators over the same contour are equal when their
  positions are; a fresh circulator stands at the first vertex.  \<^verbatim>\<open>prev()\<close> and
  \<^verbatim>\<open>next()\<close> read the neighbouring vertices without moving.
\<close>

record contour_circulator =
  circ_contour :: contour_type
  circ_pos :: nat

definition circulator :: "contour_type \<Rightarrow> contour_circulator" where
  "circulator c = \<lparr>circ_contour = c, circ_pos = 0\<rparr>"

definition deref :: "contour_circulator \<Rightarrow> point" where
  "deref c = circ_contour c ! circ_pos c"

definition circ_inc :: "contour_circulator \<Rightarrow> contour_circulator" where
  "circ_inc c = c\<lparr>circ_pos := (circ_pos c + 1) mod length (circ_contour c)\<rparr>"

definition circ_dec :: "contour_circulator \<Rightarrow> contour_circulator" where
  "circ_dec c =
     c\<lparr>circ_pos := (circ_pos c + length (circ_contour c) - 1) mod length (circ_contour c)\<rparr>"

definition circ_prev :: "contour_circulator \<Rightarrow> point" where
  "circ_prev c = deref (circ_dec c)"

definition circ_next :: "contour_circulator \<Rightarrow> point" where
  "circ_next c = deref (circ_inc c)"

definition circ_eq :: "contour_circulator \<Rightarrow> contour_circulator \<Rightarrow> bool" where
  "circ_eq c d \<longleftrightarrow> circ_pos c = circ_pos d"

section \<open>Tangent search\<close>

text \<open>The three-point overload of \<^verbatim>\<open>is_tangent\<close>, the one \<^verbatim>\<open>find_tangent\<close> calls.\<close>

definition is_tangent :: "point \<Rightarrow> point \<Rightarrow> point \<Rightarrow> bool" where
  "is_tangent p1 p2 p3 \<longleftrightarrow> turn p1 p2 p3 \<noteq> RIGHT"

text \<open>
  The loops of the source have no bound, so each is a partial function into
  \<open>option\<close>: \<open>None\<close> is a loop that never exits.  \<open>find_tangent_retreat\<close> and
  \<open>find_tangent_advance\<close> are the two inner loops of \<^verbatim>\<open>find_tangent\<close>.
\<close>

partial_function (option) find_tangent_retreat ::
  "contour_circulator \<Rightarrow> contour_circulator \<Rightarrow> contour_circulator option" where
  "find_tangent_retreat circular_A circular_B =
     (if \<not> is_tangent (deref circular_A) (deref circular_B) (circ_prev circular_A)
      then find_tangent_retreat (circ_dec circular_A) circular_B
      else Some circular_A)"

declare find_tangent_retreat.simps [code]

partial_function (option) find_tangent_advance ::
  "contour_circulator \<Rightarrow> contour_circulator \<Rightarrow> contour_circulator option" where
  "find_tangent_advance circular_A circular_B =
     (if \<not> is_tangent (deref circular_A) (deref circular_B) (circ_next circular_B)
      then find_tangent_advance circular_A (circ_inc circular_B)
      else Some circular_B)"

declare find_tangent_advance.simps [code]

partial_function (option) find_tangent ::
  "contour_circulator \<Rightarrow> contour_circulator \<Rightarrow> (contour_circulator \<times> contour_circulator) option" where
  "find_tangent circular_A circular_B =
     (if \<not> is_tangent (deref circular_A) (deref circular_B) (circ_prev circular_A)
         \<or> \<not> is_tangent (deref circular_A) (deref circular_B) (circ_next circular_B)
      then do {
        a \<leftarrow> find_tangent_retreat circular_A circular_B;
        b \<leftarrow> find_tangent_advance a circular_B;
        find_tangent a b
      }
      else Some (circular_A, circular_B))"

declare find_tangent.simps [code]

section \<open>Leftmost and rightmost locators\<close>

partial_function (option) set_leftmost_loop ::
  "contour_circulator \<Rightarrow> contour_circulator \<Rightarrow> contour_circulator \<Rightarrow> contour_circulator option" where
  "set_leftmost_loop current prev next =
     (if \<not> (deref current < deref prev \<and> deref current < deref next)
      then set_leftmost_loop (circ_inc current) (circ_inc prev) (circ_inc next)
      else Some current)"

declare set_leftmost_loop.simps [code]

definition set_leftmost :: "contour_circulator \<Rightarrow> contour_circulator option" where
  "set_leftmost current =
     (let prev = circ_dec current;
          next = circ_inc current
      in if circ_eq prev current \<and> circ_eq current next then Some current
         else set_leftmost_loop current prev next)"

partial_function (option) set_rightmost_loop ::
  "contour_circulator \<Rightarrow> contour_circulator \<Rightarrow> contour_circulator \<Rightarrow> contour_circulator option" where
  "set_rightmost_loop current prev next =
     (if \<not> (deref current > deref prev \<and> deref current > deref next)
      then set_rightmost_loop (circ_inc current) (circ_inc prev) (circ_inc next)
      else Some current)"

declare set_rightmost_loop.simps [code]

definition set_rightmost :: "contour_circulator \<Rightarrow> contour_circulator option" where
  "set_rightmost current =
     (let prev = circ_dec current;
          next = circ_inc current
      in if circ_eq prev current \<and> circ_eq current next then Some current
         else set_rightmost_loop current prev next)"

section \<open>Collinearity test\<close>

text \<open>
  The loop of \<^verbatim>\<open>is_on_one_line\<close> runs an iterator from \<^verbatim>\<open>begin()\<close> to
  \<^verbatim>\<open>end() - 2\<close> and reads the three points at the iterator; on a list that is
  recursion on the tail.
\<close>

fun is_on_one_line_loop :: "point list \<Rightarrow> bool" where
  "is_on_one_line_loop (a # b # c # rest) =
     (if turn a b c \<noteq> COLLINEAR then False else is_on_one_line_loop (b # c # rest))"
| "is_on_one_line_loop _ = True"

definition is_on_one_line :: "contour_type \<Rightarrow> bool" where
  "is_on_one_line contour =
     (if length contour \<le> 2 then True else is_on_one_line_loop contour)"

text \<open>The two-contour overload copies both point sequences into one builder.\<close>

definition is_on_one_line2 :: "contour_type \<Rightarrow> contour_type \<Rightarrow> bool" where
  "is_on_one_line2 A B =
     (let builder = fold (\<lambda>pt b. add_point b pt) A empty_builder;
          builder = fold (\<lambda>pt b. add_point b pt) B builder;
          contour = get_result builder
      in is_on_one_line contour)"

section \<open>Boundary walks\<close>

text \<open>
  \<open>walk_forward\<close> is the loop \<^verbatim>\<open>while (beg != end) { add_point(*beg); ++beg; }\<close>,
  \<open>walk_backward\<close> the same with \<^verbatim>\<open>--beg\<close>.
\<close>

partial_function (option) walk_forward ::
  "contour_builder_type \<Rightarrow> contour_circulator \<Rightarrow> contour_circulator \<Rightarrow> contour_builder_type option" where
  "walk_forward builder beg end =
     (if \<not> circ_eq beg end
      then walk_forward (add_point builder (deref beg)) (circ_inc beg) end
      else Some builder)"

declare walk_forward.simps [code]

partial_function (option) walk_backward ::
  "contour_builder_type \<Rightarrow> contour_circulator \<Rightarrow> contour_circulator \<Rightarrow> contour_builder_type option" where
  "walk_backward builder beg end =
     (if \<not> circ_eq beg end
      then walk_backward (add_point builder (deref beg)) (circ_dec beg) end
      else Some builder)"

declare walk_backward.simps [code]

definition build_oneline_contour :: "contour_type \<Rightarrow> contour_type \<Rightarrow> contour_type option" where
  "build_oneline_contour A B = do {
     circular_A \<leftarrow> set_leftmost (circulator A);
     circular_B \<leftarrow> set_leftmost (circulator B);
     let end_A = circ_dec circular_A;
     let end_B = circ_dec circular_B;
     builder \<leftarrow> walk_forward empty_builder circular_A end_A;
     let builder = add_point builder (deref end_A);
     builder \<leftarrow> walk_forward builder circular_B end_B;
     let builder = add_point builder (deref end_B);
     Some (get_result builder)
   }"

definition add_oneline_contour_to_builder ::
  "contour_builder_type \<Rightarrow> contour_circulator \<Rightarrow> contour_circulator \<Rightarrow> contour_builder_type option" where
  "add_oneline_contour_to_builder builder beg end = do {
     let beg = circ_inc beg;
     builder \<leftarrow> (if circ_eq beg end
                 then walk_backward builder (circ_dec beg) end
                 else walk_forward builder (circ_dec beg) end);
     Some (add_point builder (deref end))
   }"

definition add_convex_contour_to_builder ::
  "contour_builder_type \<Rightarrow> contour_circulator \<Rightarrow> contour_circulator \<Rightarrow> contour_builder_type option" where
  "add_convex_contour_to_builder builder beg end = do {
     builder \<leftarrow> walk_forward builder beg end;
     Some (add_point builder (deref end))
   }"

definition add_contour_to_builder ::
  "contour_builder_type \<Rightarrow> contour_type \<Rightarrow> contour_circulator \<Rightarrow> contour_circulator
     \<Rightarrow> contour_builder_type option" where
  "add_contour_to_builder builder contour beg end =
     (if is_on_one_line contour
      then add_oneline_contour_to_builder builder beg end
      else add_convex_contour_to_builder builder beg end)"

section \<open>Merge engine\<close>

text \<open>
  \<open>merge_by_tangents\<close> is the body of \<^verbatim>\<open>merge\<close> after the collinearity test:
  lower tangent, upper tangent, then the two boundary walks.
\<close>

definition merge_by_tangents :: "contour_type \<Rightarrow> contour_type \<Rightarrow> contour_type option" where
  "merge_by_tangents A B = do {
     let circular_A = circulator A;
     let circular_B = circulator B;
     circular_A \<leftarrow> set_rightmost circular_A;
     circular_B \<leftarrow> set_leftmost circular_B;
     (circular_A, circular_B) \<leftarrow> find_tangent circular_A circular_B;
     let a_down = circular_A;
     let b_down = circular_B;
     circular_A \<leftarrow> set_rightmost circular_A;
     circular_B \<leftarrow> set_leftmost circular_B;
     (circular_B, circular_A) \<leftarrow> find_tangent circular_B circular_A;
     let a_up = circular_A;
     let b_up = circular_B;
     builder \<leftarrow> add_contour_to_builder empty_builder A a_up a_down;
     builder \<leftarrow> add_contour_to_builder builder B b_down b_up;
     Some (get_result builder)
   }"

definition merge :: "contour_type \<Rightarrow> contour_type \<Rightarrow> contour_type option" where
  "merge A B =
     (if is_on_one_line2 A B then build_oneline_contour A B
      else merge_by_tangents A B)"

section \<open>Divide driver\<close>

text \<open>
  \<^verbatim>\<open>merge_hull_impl\<close> works on the iterator range \<^verbatim>\<open>[beg, end)\<close>, here the list of
  the points in the range; \<open>middle\<close> is the offset \<^verbatim>\<open>distance / 2\<close> of the split.
\<close>

definition middle :: "nat \<Rightarrow> nat" where
  "middle distance = distance div 2"

function merge_hull_impl :: "point list \<Rightarrow> contour_type option" where
  "merge_hull_impl pts =
     (if length pts \<le> 2
      then Some (get_result (fold (\<lambda>pt b. add_point b pt) pts empty_builder))
      else do {
        left_contour \<leftarrow> merge_hull_impl (take (middle (length pts)) pts);
        right_contour \<leftarrow> merge_hull_impl (drop (middle (length pts)) pts);
        merge left_contour right_contour
      })"
  by pat_completeness auto
termination
  by (relation "measure length") (auto simp: middle_def)

declare merge_hull_impl.simps [simp del]

text \<open>
  The one exception of the source is \<^verbatim>\<open>std::logic_error\<close> with its message.
  \<^verbatim>\<open>boost::sort\<close> orders the points by their \<^verbatim>\<open>operator<\<close>; points that compare
  equal are the same point, so the sorted vector is the same for every sorting
  algorithm, and \<open>sort\<close> over the order of \<open>point\<close> gives it.
\<close>

datatype error = Logic_error string

text \<open>
  \<open>None\<close>: the call never returns; \<open>Some (Inl e)\<close>: it throws \<open>e\<close>;
  \<open>Some (Inr c)\<close>: it returns the contour \<open>c\<close>.
\<close>

definition merge_hull :: "point list \<Rightarrow> (error + contour_type) option" where
  "merge_hull pts =
     (if length pts < 2
      then Some (Inl (Logic_error ''not enough points to build convex hull''))
      else map_option Inr (merge_hull_impl (sort pts)))"

section \<open>Properties of contours\<close>

text \<open>A circulator is valid when its position is a vertex of its contour.\<close>

definition valid_circulator :: "contour_circulator \<Rightarrow> bool" where
  "valid_circulator c \<longleftrightarrow> circ_pos c < length (circ_contour c)"

text \<open>The vertex under the circulator is strictly less than both circular neighbours.\<close>

definition less_than_neighbours :: "contour_circulator \<Rightarrow> bool" where
  "less_than_neighbours c \<longleftrightarrow> deref c < circ_prev c \<and> deref c < circ_next c"

text \<open>The same with "greater", what \<^verbatim>\<open>set_rightmost\<close> looks for.\<close>

definition greater_than_neighbours :: "contour_circulator \<Rightarrow> bool" where
  "greater_than_neighbours c \<longleftrightarrow> deref c > circ_prev c \<and> deref c > circ_next c"

text \<open>Every three points at consecutive positions of a sequence are collinear.\<close>

definition triples_collinear :: "point list \<Rightarrow> bool" where
  "triples_collinear xs \<longleftrightarrow>
     list_all (\<lambda>i. turn (xs ! i) (xs ! (i + 1)) (xs ! (i + 2)) = COLLINEAR) [0..<length xs - 2]"

text \<open>Every three points of a set are collinear.\<close>

definition collinear_set :: "point set \<Rightarrow> bool" where
  "collinear_set S \<longleftrightarrow> (\<forall>a\<in>S. \<forall>b\<in>S. \<forall>c\<in>S. turn a b c = COLLINEAR)"

text \<open>All the vertices of a contour are collinear.\<close>

definition collinear_contour :: "contour_type \<Rightarrow> bool" where
  "collinear_contour h \<longleftrightarrow>
     list_all (\<lambda>a. list_all (\<lambda>b. list_all (\<lambda>c. turn a b c = COLLINEAR) h) h) h"

text \<open>
  The edges of a contour read cyclically, and containment decided by the orientation
  predicate: no input point is to the right of any edge.
\<close>

definition hull_edges :: "contour_type \<Rightarrow> (point \<times> point) list" where
  "hull_edges h = zip h (rotate1 h)"

definition contains_points :: "contour_type \<Rightarrow> point list \<Rightarrow> bool" where
  "contains_points h pts \<longleftrightarrow>
     list_all (\<lambda>(a, b). list_all (\<lambda>p. turn a b p \<noteq> RIGHT) pts) (hull_edges h)"

text \<open>The triples of cyclically consecutive vertices, and global convexity.\<close>

definition consecutive_triples :: "contour_type \<Rightarrow> (point \<times> point \<times> point) list" where
  "consecutive_triples h = zip h (zip (rotate1 h) (rotate1 (rotate1 h)))"

definition no_right_turn :: "contour_type \<Rightarrow> bool" where
  "no_right_turn h \<longleftrightarrow> list_all (\<lambda>(a, b, c). turn a b c \<noteq> RIGHT) (consecutive_triples h)"

section \<open>The orientation predicate\<close>

lemma cross_swap: "cross v2 v1 = - cross v1 v2"
  by (simp add: cross_def)

text \<open>
  C10: swapping the last two arguments of \<open>turn\<close> exchanges \<open>LEFT\<close> and \<open>RIGHT\<close>
  and keeps \<open>COLLINEAR\<close>.
\<close>

theorem turn_antisymmetry:
  "(turn a b c = LEFT \<longleftrightarrow> turn a c b = RIGHT) \<and>
   (turn a b c = COLLINEAR \<longleftrightarrow> turn a c b = COLLINEAR)"
  unfolding turn_def Let_def cross_swap [of "point_sub c a" "point_sub b a"]
  by (simp add: sgn_scalar_def)

theorem turn_antisymmetry_witness:
  "turn (Point 0 0) (Point 1 0) (Point 0 1) = LEFT \<and>
   turn (Point 0 0) (Point 0 1) (Point 1 0) = RIGHT \<and>
   turn (Point 0 0) (Point 1 1) (Point 2 2) = COLLINEAR \<and>
   turn (Point 0 0) (Point 2 2) (Point 1 1) = COLLINEAR"
proof -
  have l: "turn (Point 0 0) (Point 1 0) (Point 0 1) = LEFT"
    by (simp add: turn_def point_sub_def cross_def sgn_scalar_def)
  have c: "turn (Point 0 0) (Point 1 1) (Point 2 2) = COLLINEAR"
    by (simp add: turn_def point_sub_def cross_def sgn_scalar_def)
  show ?thesis
    using l c turn_antisymmetry [of "Point 0 0" "Point 1 0" "Point 0 1"]
      turn_antisymmetry [of "Point 0 0" "Point 1 1" "Point 2 2"]
    by simp
qed

section \<open>The entry point and the divide driver\<close>

text \<open>
  C5: \<open>merge_hull\<close> throws exactly when fewer than two points are supplied, and what it
  throws is the one \<open>Logic_error\<close> of the entry check; with two or more points the
  result is never an error.
\<close>

theorem merge_hull_error_iff:
  "merge_hull pts = Some (Inl e) \<longleftrightarrow>
     length pts < 2 \<and> e = Logic_error ''not enough points to build convex hull''"
  by (cases "merge_hull_impl (sort pts)") (auto simp: merge_hull_def)

theorem merge_hull_error_iff_witness:
  "merge_hull [Point 3 4] = Some (Inl (Logic_error ''not enough points to build convex hull''))
   \<and> merge_hull [] = Some (Inl (Logic_error ''not enough points to build convex hull''))
   \<and> merge_hull [Point 1 0, Point 0 0]
       \<noteq> Some (Inl (Logic_error ''not enough points to build convex hull''))"
  using
    merge_hull_error_iff [of "[Point 3 4]" "Logic_error ''not enough points to build convex hull''"]
    merge_hull_error_iff [of "[]" "Logic_error ''not enough points to build convex hull''"]
    merge_hull_error_iff [of "[Point 1 0, Point 0 0]"
      "Logic_error ''not enough points to build convex hull''"]
  by simp

text \<open>
  C8 (as amended): a range of \<open>n \<ge> 3\<close> points is split at index \<open>n div 2\<close>; the left
  half has \<open>n div 2\<close> points and the right half \<open>n div 2 + n mod 2\<close>, so for odd
  \<open>n\<close> it is the right half that receives the extra point; the left half is hulled
  first, then the right, and the two contours are merged.
\<close>

theorem merge_hull_impl_split:
  assumes "3 \<le> length pts"
  shows "merge_hull_impl pts =
           do {
             left_contour \<leftarrow> merge_hull_impl (take (length pts div 2) pts);
             right_contour \<leftarrow> merge_hull_impl (drop (length pts div 2) pts);
             merge left_contour right_contour
           }
         \<and> length (take (length pts div 2) pts) = length pts div 2
         \<and> length (drop (length pts div 2) pts) = length pts div 2 + length pts mod 2"
proof -
  have "\<not> length pts \<le> 2"
    using assms by simp
  then have "merge_hull_impl pts =
           do {
             left_contour \<leftarrow> merge_hull_impl (take (length pts div 2) pts);
             right_contour \<leftarrow> merge_hull_impl (drop (length pts div 2) pts);
             merge left_contour right_contour
           }"
    by (subst merge_hull_impl.simps) (simp add: middle_def)
  moreover have "length (take (length pts div 2) pts) = length pts div 2"
    by simp
  moreover have "length (drop (length pts div 2) pts) = length pts div 2 + length pts mod 2"
    by (simp, presburger)
  ultimately show ?thesis
    by blast
qed

theorem merge_hull_impl_split_witness:
  "merge_hull_impl [Point 0 0, Point 1 0, Point 2 0] =
     do {
       left_contour \<leftarrow> merge_hull_impl [Point 0 0];
       right_contour \<leftarrow> merge_hull_impl [Point 1 0, Point 2 0];
       merge left_contour right_contour
     }"
  using merge_hull_impl_split [of "[Point 0 0, Point 1 0, Point 2 0]"]
  by simp

text \<open>
  The claim as written gives the extra point of an odd range to the left half; on
  three points the left half has one point and the right half two.
\<close>

theorem left_half_extra_counterexample:
  "take (middle (length [Point 0 0, Point 1 0, Point 2 0])) [Point 0 0, Point 1 0, Point 2 0]
     = [Point 0 0]
   \<and> drop (middle (length [Point 0 0, Point 1 0, Point 2 0])) [Point 0 0, Point 1 0, Point 2 0]
     = [Point 1 0, Point 2 0]
   \<and> \<not> length [Point 1 0, Point 2 0] < length [Point 0 0]"
  by (simp add: middle_def)

section \<open>Circulators stay on their contour\<close>

text \<open>
  Every loop of the merge engine moves a circulator by \<open>circ_inc\<close> or \<open>circ_dec\<close>
  only, so a circulator that a loop returns is over the contour it started on and
  stands at one of its vertices.  These are partial-correctness facts: they speak of
  the runs that return.
\<close>

lemma circ_inc_contour [simp]: "circ_contour (circ_inc c) = circ_contour c"
  by (simp add: circ_inc_def)

lemma circ_dec_contour [simp]: "circ_contour (circ_dec c) = circ_contour c"
  by (simp add: circ_dec_def)

lemma valid_circ_inc: "circ_contour c \<noteq> [] \<Longrightarrow> valid_circulator (circ_inc c)"
  by (simp add: valid_circulator_def circ_inc_def)

lemma valid_circ_dec: "circ_contour c \<noteq> [] \<Longrightarrow> valid_circulator (circ_dec c)"
  by (simp add: valid_circulator_def circ_dec_def)

lemma valid_nonempty: "valid_circulator c \<Longrightarrow> circ_contour c \<noteq> []"
  by (auto simp: valid_circulator_def)

lemma valid_deref: "valid_circulator c \<Longrightarrow> deref c \<in> set (circ_contour c)"
  by (simp add: valid_circulator_def deref_def)

lemma valid_circulator_new: "A \<noteq> [] \<Longrightarrow> valid_circulator (circulator A)"
  by (simp add: valid_circulator_def circulator_def)

lemma circulator_contour [simp]: "circ_contour (circulator A) = A"
  by (simp add: circulator_def)

lemma set_leftmost_loop_keeps:
  assumes "set_leftmost_loop cur prv nxt = Some r"
  shows "circ_contour r = circ_contour cur \<and> (valid_circulator cur \<longrightarrow> valid_circulator r)"
  using assms
proof (induction rule: set_leftmost_loop.raw_induct [rotated 1, consumes 1])
  case (1 loop cur prv nxt r)
  then show ?case
    by (auto split: if_splits dest!: "1.IH" simp: valid_circ_inc valid_nonempty)
qed

lemma set_rightmost_loop_keeps:
  assumes "set_rightmost_loop cur prv nxt = Some r"
  shows "circ_contour r = circ_contour cur \<and> (valid_circulator cur \<longrightarrow> valid_circulator r)"
  using assms
proof (induction rule: set_rightmost_loop.raw_induct [rotated 1, consumes 1])
  case (1 loop cur prv nxt r)
  then show ?case
    by (auto split: if_splits dest!: "1.IH" simp: valid_circ_inc valid_nonempty)
qed

lemma set_leftmost_keeps:
  "set_leftmost c = Some r \<Longrightarrow>
     circ_contour r = circ_contour c \<and> (valid_circulator c \<longrightarrow> valid_circulator r)"
  by (auto simp: set_leftmost_def Let_def split: if_splits dest: set_leftmost_loop_keeps)

lemma set_rightmost_keeps:
  "set_rightmost c = Some r \<Longrightarrow>
     circ_contour r = circ_contour c \<and> (valid_circulator c \<longrightarrow> valid_circulator r)"
  by (auto simp: set_rightmost_def Let_def split: if_splits dest: set_rightmost_loop_keeps)

lemma find_tangent_retreat_keeps:
  assumes "find_tangent_retreat a b = Some r"
  shows "circ_contour r = circ_contour a \<and> (valid_circulator a \<longrightarrow> valid_circulator r)"
  using assms
proof (induction rule: find_tangent_retreat.raw_induct [rotated 1, consumes 1])
  case (1 loop a b r)
  then show ?case
    by (auto split: if_splits dest!: "1.IH" simp: valid_circ_dec valid_nonempty)
qed

lemma find_tangent_advance_keeps:
  assumes "find_tangent_advance a b = Some r"
  shows "circ_contour r = circ_contour b \<and> (valid_circulator b \<longrightarrow> valid_circulator r)"
  using assms
proof (induction rule: find_tangent_advance.raw_induct [rotated 1, consumes 1])
  case (1 loop a b r)
  then show ?case
    by (auto split: if_splits dest!: "1.IH" simp: valid_circ_inc valid_nonempty)
qed

lemma find_tangent_keeps:
  assumes "find_tangent a b = Some r"
  shows "circ_contour (fst r) = circ_contour a \<and> circ_contour (snd r) = circ_contour b
    \<and> (valid_circulator a \<longrightarrow> valid_circulator (fst r))
    \<and> (valid_circulator b \<longrightarrow> valid_circulator (snd r))"
  using assms
proof (induction rule: find_tangent.raw_induct [rotated 1, consumes 1])
  case (1 loop a b r)
  show ?case
  proof (cases "\<not> is_tangent (deref a) (deref b) (circ_prev a)
         \<or> \<not> is_tangent (deref a) (deref b) (circ_next b)")
    case True
    with "1.hyps" obtain a' b' where
      a': "find_tangent_retreat a b = Some a'" and
      b': "find_tangent_advance a' b = Some b'" and
      r: "loop a' b' = Some r"
      by (auto simp: bind_eq_Some_conv)
    from "1.IH" [OF r] find_tangent_retreat_keeps [OF a'] find_tangent_advance_keeps [OF b']
    show ?thesis by simp
  next
    case False
    with "1.hyps" show ?thesis by auto
  qed
qed

lemma walk_forward_subset:
  assumes "walk_forward builder beg fin = Some r"
  shows "valid_circulator beg \<longrightarrow> set r \<subseteq> set builder \<union> set (circ_contour beg)"
  using assms
proof (induction rule: walk_forward.raw_induct [rotated 1, consumes 1])
  case (1 loop builder beg fin r)
  show ?case
  proof (cases "circ_eq beg fin")
    case True
    with "1.hyps" show ?thesis by auto
  next
    case False
    with "1.hyps" have "loop (add_point builder (deref beg)) (circ_inc beg) fin = Some r"
      by simp
    from "1.IH" [OF this] show ?thesis
      by (auto simp: add_point_def valid_circ_inc valid_nonempty valid_deref)
  qed
qed

lemma walk_backward_subset:
  assumes "walk_backward builder beg fin = Some r"
  shows "valid_circulator beg \<longrightarrow> set r \<subseteq> set builder \<union> set (circ_contour beg)"
  using assms
proof (induction rule: walk_backward.raw_induct [rotated 1, consumes 1])
  case (1 loop builder beg fin r)
  show ?case
  proof (cases "circ_eq beg fin")
    case True
    with "1.hyps" show ?thesis by auto
  next
    case False
    with "1.hyps" have "loop (add_point builder (deref beg)) (circ_dec beg) fin = Some r"
      by simp
    from "1.IH" [OF this] show ?thesis
      by (auto simp: add_point_def valid_circ_dec valid_nonempty valid_deref)
  qed
qed

lemma add_contour_to_builder_subset:
  assumes "add_contour_to_builder builder contour beg fin = Some r"
    and "valid_circulator beg" and "valid_circulator fin"
    and "circ_contour beg = X" and "circ_contour fin = X"
  shows "set r \<subseteq> set builder \<union> set X \<and> r \<noteq> []"
proof -
  have vd: "valid_circulator (circ_dec (circ_inc beg))"
    using assms(2) by (simp add: valid_circ_dec valid_nonempty)
  have e: "deref fin \<in> set X"
    using assms(3,5) valid_deref by blast
  from assms(1) obtain w where
    w: "walk_forward builder (circ_dec (circ_inc beg)) fin = Some w
        \<or> walk_backward builder (circ_dec (circ_inc beg)) fin = Some w
        \<or> walk_forward builder beg fin = Some w"
    and r: "r = add_point w (deref fin)"
    by (auto simp: add_contour_to_builder_def add_oneline_contour_to_builder_def
        add_convex_contour_to_builder_def Let_def bind_eq_Some_conv split: if_splits)
  from w have "set w \<subseteq> set builder \<union> set X"
    using walk_forward_subset walk_backward_subset vd assms(2,4)
    by (metis circ_dec_contour circ_inc_contour)
  with r e show ?thesis
    by (auto simp: add_point_def)
qed


lemma fold_add_point: "fold (\<lambda>pt b. add_point b pt) xs builder = builder @ xs"
  by (induction xs arbitrary: builder) (simp_all add: add_point_def)

lemma build_oneline_contour_subset:
  assumes "build_oneline_contour A B = Some r" and "A \<noteq> []" and "B \<noteq> []"
  shows "set r \<subseteq> set A \<union> set B \<and> r \<noteq> []"
proof -
  from assms(1) obtain a b w1 w2 where
    a: "set_leftmost (circulator A) = Some a" and
    b: "set_leftmost (circulator B) = Some b" and
    w1: "walk_forward empty_builder a (circ_dec a) = Some w1" and
    w2: "walk_forward (add_point w1 (deref (circ_dec a))) b (circ_dec b) = Some w2" and
    r: "r = add_point w2 (deref (circ_dec b))"
    by (auto simp: build_oneline_contour_def Let_def bind_eq_Some_conv get_result_def)
  from set_leftmost_keeps [OF a] assms(2)
  have ca: "circ_contour a = A" and va: "valid_circulator a"
    by (simp_all add: valid_circulator_new)
  from set_leftmost_keeps [OF b] assms(3)
  have cb: "circ_contour b = B" and vb: "valid_circulator b"
    by (simp_all add: valid_circulator_new)
  have da: "deref (circ_dec a) \<in> set A"
    using valid_deref [of "circ_dec a"] valid_circ_dec [of a] ca assms(2) by simp
  have db: "deref (circ_dec b) \<in> set B"
    using valid_deref [of "circ_dec b"] valid_circ_dec [of b] cb assms(3) by simp
  from walk_forward_subset [OF w1] va ca have s1: "set w1 \<subseteq> set A"
    by (simp add: empty_builder_def)
  from walk_forward_subset [OF w2] vb cb s1 da have "set w2 \<subseteq> set A \<union> set B"
    by (auto simp: add_point_def)
  with r db show ?thesis
    by (auto simp: add_point_def)
qed

lemma merge_by_tangents_subset:
  assumes "merge_by_tangents A B = Some r" and "A \<noteq> []" and "B \<noteq> []"
  shows "set r \<subseteq> set A \<union> set B \<and> r \<noteq> []"
proof -
  from assms(1) have "\<exists>a1 b1 t1 a2 b2 t2 w1.
      set_rightmost (circulator A) = Some a1 \<and>
      set_leftmost (circulator B) = Some b1 \<and>
      find_tangent a1 b1 = Some t1 \<and>
      set_rightmost (fst t1) = Some a2 \<and>
      set_leftmost (snd t1) = Some b2 \<and>
      find_tangent b2 a2 = Some t2 \<and>
      add_contour_to_builder empty_builder A (snd t2) (fst t1) = Some w1 \<and>
      add_contour_to_builder w1 B (snd t1) (fst t2) = Some r"
    unfolding merge_by_tangents_def Let_def bind_eq_Some_conv split_beta get_result_def
    by blast
  then obtain a1 b1 t1 a2 b2 t2 w1 where
    a1: "set_rightmost (circulator A) = Some a1" and
    b1: "set_leftmost (circulator B) = Some b1" and
    t1: "find_tangent a1 b1 = Some t1" and
    a2: "set_rightmost (fst t1) = Some a2" and
    b2: "set_leftmost (snd t1) = Some b2" and
    t2: "find_tangent b2 a2 = Some t2" and
    w1: "add_contour_to_builder empty_builder A (snd t2) (fst t1) = Some w1" and
    r: "add_contour_to_builder w1 B (snd t1) (fst t2) = Some r"
    by blast
  from set_rightmost_keeps [OF a1] assms(2)
  have ca1: "circ_contour a1 = A" and va1: "valid_circulator a1"
    by (simp_all add: valid_circulator_new)
  from set_leftmost_keeps [OF b1] assms(3)
  have cb1: "circ_contour b1 = B" and vb1: "valid_circulator b1"
    by (simp_all add: valid_circulator_new)
  from find_tangent_keeps [OF t1] ca1 va1 cb1 vb1
  have ct1: "circ_contour (fst t1) = A" "circ_contour (snd t1) = B"
    and vt1: "valid_circulator (fst t1)" "valid_circulator (snd t1)"
    by simp_all
  from set_rightmost_keeps [OF a2] ct1 vt1
  have ca2: "circ_contour a2 = A" and va2: "valid_circulator a2"
    by simp_all
  from set_leftmost_keeps [OF b2] ct1 vt1
  have cb2: "circ_contour b2 = B" and vb2: "valid_circulator b2"
    by simp_all
  from find_tangent_keeps [OF t2] ca2 va2 cb2 vb2
  have ct2: "circ_contour (fst t2) = B" "circ_contour (snd t2) = A"
    and vt2: "valid_circulator (fst t2)" "valid_circulator (snd t2)"
    by simp_all
  from add_contour_to_builder_subset [OF w1 vt2(2) vt1(1) ct2(2) ct1(1)]
  have s1: "set w1 \<subseteq> set A"
    by (simp add: empty_builder_def)
  from add_contour_to_builder_subset [OF r vt1(2) vt2(1) ct1(2) ct2(1)] s1
  show ?thesis
    by auto
qed

lemma merge_subset:
  assumes "merge A B = Some r" and "A \<noteq> []" and "B \<noteq> []"
  shows "set r \<subseteq> set A \<union> set B \<and> r \<noteq> []"
  using assms build_oneline_contour_subset merge_by_tangents_subset
  by (auto simp: merge_def split: if_splits)

lemma merge_hull_impl_subset:
  "pts \<noteq> [] \<Longrightarrow> merge_hull_impl pts = Some r \<Longrightarrow> set r \<subseteq> set pts \<and> r \<noteq> []"
proof (induction pts arbitrary: r rule: merge_hull_impl.induct)
  case (1 pts)
  show ?case
  proof (cases "length pts \<le> 2")
    case True
    with "1.prems" show ?thesis
      by (subst (asm) merge_hull_impl.simps)
        (auto simp: fold_add_point get_result_def empty_builder_def)
  next
    case False
    let ?l = "take (middle (length pts)) pts" and ?r = "drop (middle (length pts)) pts"
    from False "1.prems"(2) obtain lc rc where
      lc: "merge_hull_impl ?l = Some lc" and
      rc: "merge_hull_impl ?r = Some rc" and
      m: "merge lc rc = Some r"
      by (subst (asm) merge_hull_impl.simps) (auto simp: bind_eq_Some_conv)
    from False have ne: "?l \<noteq> []" "?r \<noteq> []"
      by (auto simp: middle_def)
    from "1.IH"(1) [OF False ne(1) lc] have l: "set lc \<subseteq> set ?l" "lc \<noteq> []"
      by simp_all
    from "1.IH"(2) [OF False lc ne(2) rc] have r: "set rc \<subseteq> set ?r" "rc \<noteq> []"
      by simp_all
    from merge_subset [OF m l(2) r(2)] l(1) r(1)
    show ?thesis
      using set_take_subset [of "middle (length pts)" pts]
        set_drop_subset [of "middle (length pts)" pts]
      by blast
  qed
qed

section \<open>The hull's vertices are input points\<close>

lemma hull_square_centre:
  "merge_hull [Point 0 0, Point 0 2, Point 2 0, Point 2 2, Point 1 1]
     = Some (Inr [Point 0 2, Point 0 0, Point 2 0, Point 2 2])"
  by code_simp

text \<open>
  C3: for an input of at least two points, every vertex of the contour that
  \<open>merge_hull\<close> returns is one of the input points.
\<close>

theorem merge_hull_vertices_subset:
  assumes "2 \<le> length pts" and "merge_hull pts = Some (Inr h)"
  shows "set h \<subseteq> set pts"
proof -
  from assms have "merge_hull_impl (sort pts) = Some h"
    by (auto simp: merge_hull_def)
  moreover from assms(1) have "sort pts \<noteq> []"
    by (metis length_sort list.size(3) not_numeral_le_zero)
  ultimately have "set h \<subseteq> set (sort pts)"
    using merge_hull_impl_subset by blast
  then show ?thesis
    by simp
qed

theorem merge_hull_vertices_subset_witness:
  "merge_hull [Point 0 0, Point 0 2, Point 2 0, Point 2 2, Point 1 1]
     = Some (Inr [Point 0 2, Point 0 0, Point 2 0, Point 2 2])
   \<and> set [Point 0 2, Point 0 0, Point 2 0, Point 2 2]
     \<subseteq> set [Point 0 0, Point 0 2, Point 2 0, Point 2 2, Point 1 1]"
  using hull_square_centre
    merge_hull_vertices_subset [of "[Point 0 0, Point 0 2, Point 2 0, Point 2 2, Point 1 1]"
      "[Point 0 2, Point 0 0, Point 2 0, Point 2 2]"]
  by simp

section \<open>The leftmost and rightmost locators\<close>

text \<open>
  Inside the loop of \<^verbatim>\<open>set_leftmost\<close> the three circulators move together, so
  \<open>prev\<close> and \<open>next\<close> stay the neighbours of \<open>current\<close>, and the loop exits
  exactly at a vertex that is strictly less than both neighbours.
\<close>

lemma circ_dec_inc: "valid_circulator c \<Longrightarrow> circ_dec (circ_inc c) = c"
proof -
  assume v: "valid_circulator c"
  let ?n = "length (circ_contour c)" and ?i = "circ_pos c"
  from v have "?i < ?n" by (simp add: valid_circulator_def)
  then have "((?i + 1) mod ?n + ?n - 1) mod ?n = ?i"
    by (cases "?i + 1 = ?n") (auto simp: mod_Suc)
  then show ?thesis
    by (simp add: circ_dec_def circ_inc_def)
qed

lemma circ_inc_dec: "valid_circulator c \<Longrightarrow> circ_inc (circ_dec c) = c"
proof -
  assume v: "valid_circulator c"
  let ?n = "length (circ_contour c)" and ?i = "circ_pos c"
  from v have i: "?i < ?n" by (simp add: valid_circulator_def)
  have "((?i + ?n - 1) mod ?n + 1) mod ?n = ?i"
  proof (cases "?i = 0")
    case True
    with i show ?thesis by (simp add: mod_Suc)
  next
    case False
    with i have "(?i + ?n - 1) mod ?n = ?i - 1"
      by (metis Nat.add_diff_assoc2 One_nat_def Suc_leI add.commute less_imp_diff_less
          mod_add_self1 mod_less neq0_conv)
    with i False show ?thesis by simp
  qed
  then show ?thesis
    by (simp add: circ_dec_def circ_inc_def)
qed

lemma set_leftmost_loop_result:
  assumes "set_leftmost_loop cur prv nxt = Some r"
  shows "valid_circulator cur \<longrightarrow> prv = circ_dec cur \<longrightarrow> nxt = circ_inc cur
           \<longrightarrow> less_than_neighbours r"
  using assms
proof (induction rule: set_leftmost_loop.raw_induct [rotated 1, consumes 1])
  case (1 loop cur prv nxt r)
  show ?case
  proof (intro impI)
    assume v: "valid_circulator cur" and p: "prv = circ_dec cur" and n: "nxt = circ_inc cur"
    show "less_than_neighbours r"
    proof (cases "deref cur < deref prv \<and> deref cur < deref nxt")
      case True
      with "1.hyps" p n show ?thesis
        by (simp add: less_than_neighbours_def circ_prev_def circ_next_def)
    next
      case False
      with "1.hyps" have "loop (circ_inc cur) (circ_inc prv) (circ_inc nxt) = Some r"
        by simp
      from "1.IH" [OF this] v p n show ?thesis
        by (simp add: circ_inc_dec circ_dec_inc valid_circ_inc valid_nonempty)
    qed
  qed
qed

lemma circ_pos_shift:
  "(cur\<lparr>circ_pos := (circ_pos cur + k) mod length (circ_contour cur)\<rparr>) =
   ((circ_inc cur)\<lparr>circ_pos := (circ_pos (circ_inc cur) + (k - 1)) mod length (circ_contour (circ_inc cur))\<rparr>)"
  if "0 < k"
  using that by (cases k) (simp_all add: circ_inc_def mod_simps)

lemma set_leftmost_loop_terminates:
  assumes "valid_circulator cur"
    and "less_than_neighbours
           (cur\<lparr>circ_pos := (circ_pos cur + k) mod length (circ_contour cur)\<rparr>)"
  shows "\<exists>r. set_leftmost_loop cur (circ_dec cur) (circ_inc cur) = Some r"
  using assms
proof (induction k arbitrary: cur)
  case 0
  then have "less_than_neighbours cur"
    by (simp add: valid_circulator_def)
  then show ?case
    by (subst set_leftmost_loop.simps)
      (simp add: less_than_neighbours_def circ_prev_def circ_next_def)
next
  case (Suc k)
  show ?case
  proof (cases "less_than_neighbours cur")
    case True
    then show ?thesis
      by (subst set_leftmost_loop.simps)
        (simp add: less_than_neighbours_def circ_prev_def circ_next_def)
  next
    case False
    have v: "valid_circulator (circ_inc cur)"
      using Suc.prems(1) by (simp add: valid_circ_inc valid_nonempty)
    have "less_than_neighbours ((circ_inc cur)\<lparr>circ_pos :=
            (circ_pos (circ_inc cur) + k) mod length (circ_contour (circ_inc cur))\<rparr>)"
      using Suc.prems(2) circ_pos_shift [of "Suc k" cur] by simp
    from Suc.IH [OF v this] obtain r where
      "set_leftmost_loop (circ_inc cur) (circ_dec (circ_inc cur)) (circ_inc (circ_inc cur)) = Some r"
      by blast
    with False Suc.prems(1) show ?thesis
      by (subst set_leftmost_loop.simps)
        (simp add: less_than_neighbours_def circ_prev_def circ_next_def circ_inc_dec circ_dec_inc)
  qed
qed

lemma set_leftmost_single:
  assumes "valid_circulator c" and "length (circ_contour c) = 1"
  shows "set_leftmost c = Some c"
  using assms
  by (simp add: set_leftmost_def Let_def circ_eq_def circ_dec_def circ_inc_def valid_circulator_def)

lemma set_leftmost_enters_loop:
  assumes "valid_circulator c" and "2 \<le> length (circ_contour c)"
  shows "set_leftmost c = set_leftmost_loop c (circ_dec c) (circ_inc c)"
proof -
  let ?n = "length (circ_contour c)" and ?i = "circ_pos c"
  from assms have "?i < ?n" "2 \<le> ?n" by (simp_all add: valid_circulator_def)
  then have "(?i + 1) mod ?n \<noteq> ?i"
    by (cases "?i + 1 = ?n") auto
  then show ?thesis
    by (auto simp add: set_leftmost_def Let_def circ_eq_def circ_inc_def)
qed

lemma set_leftmost_pair_moves:
  "set_leftmost \<lparr>circ_contour = [Point 0 0, Point 1 0], circ_pos = 1\<rparr>
     = Some \<lparr>circ_contour = [Point 0 0, Point 1 0], circ_pos = 0\<rparr>"
  by code_simp

lemma set_leftmost_result:
  assumes "valid_circulator c" and "2 \<le> length (circ_contour c)"
    and "set_leftmost c = Some r"
  shows "less_than_neighbours r \<and> circ_contour r = circ_contour c \<and> valid_circulator r"
proof -
  from assms have l: "set_leftmost_loop c (circ_dec c) (circ_inc c) = Some r"
    by (simp add: set_leftmost_enters_loop)
  from set_leftmost_loop_result [OF l] set_leftmost_loop_keeps [OF l] assms(1)
  show ?thesis by simp
qed

lemma set_leftmost_diverges:
  assumes "valid_circulator c" and "2 \<le> length (circ_contour c)"
    and "\<not> (\<exists>j<length (circ_contour c). less_than_neighbours (c\<lparr>circ_pos := j\<rparr>))"
  shows "set_leftmost c = None"
proof (cases "set_leftmost c")
  case None
  then show ?thesis .
next
  case (Some r)
  from set_leftmost_result [OF assms(1,2) Some]
  have "less_than_neighbours r" "circ_contour r = circ_contour c" "circ_pos r < length (circ_contour c)"
    by (auto simp: valid_circulator_def)
  moreover have "r = c\<lparr>circ_pos := circ_pos r\<rparr>"
    using \<open>circ_contour r = circ_contour c\<close> by simp
  ultimately show ?thesis
    using assms(3) by metis
qed

lemma set_rightmost_loop_result:
  assumes "set_rightmost_loop cur prv nxt = Some r"
  shows "valid_circulator cur \<longrightarrow> prv = circ_dec cur \<longrightarrow> nxt = circ_inc cur
           \<longrightarrow> greater_than_neighbours r"
  using assms
proof (induction rule: set_rightmost_loop.raw_induct [rotated 1, consumes 1])
  case (1 loop cur prv nxt r)
  show ?case
  proof (intro impI)
    assume v: "valid_circulator cur" and p: "prv = circ_dec cur" and n: "nxt = circ_inc cur"
    show "greater_than_neighbours r"
    proof (cases "deref cur > deref prv \<and> deref cur > deref nxt")
      case True
      with "1.hyps" p n show ?thesis
        by (simp add: greater_than_neighbours_def circ_prev_def circ_next_def)
    next
      case False
      with "1.hyps" have "loop (circ_inc cur) (circ_inc prv) (circ_inc nxt) = Some r"
        by simp
      from "1.IH" [OF this] v p n show ?thesis
        by (simp add: circ_inc_dec circ_dec_inc valid_circ_inc valid_nonempty)
    qed
  qed
qed

lemma set_rightmost_enters_loop:
  assumes "valid_circulator c" and "2 \<le> length (circ_contour c)"
  shows "set_rightmost c = set_rightmost_loop c (circ_dec c) (circ_inc c)"
proof -
  let ?n = "length (circ_contour c)" and ?i = "circ_pos c"
  from assms have "?i < ?n" "2 \<le> ?n" by (simp_all add: valid_circulator_def)
  then have "(?i + 1) mod ?n \<noteq> ?i"
    by (cases "?i + 1 = ?n") auto
  then show ?thesis
    by (auto simp add: set_rightmost_def Let_def circ_eq_def circ_inc_def)
qed

lemma set_rightmost_diverges:
  assumes "valid_circulator c" and "2 \<le> length (circ_contour c)"
    and "\<not> (\<exists>j<length (circ_contour c). greater_than_neighbours (c\<lparr>circ_pos := j\<rparr>))"
  shows "set_rightmost c = None"
proof (cases "set_rightmost c")
  case None
  then show ?thesis .
next
  case (Some r)
  with assms(1,2) have l: "set_rightmost_loop c (circ_dec c) (circ_inc c) = Some r"
    by (simp add: set_rightmost_enters_loop)
  from set_rightmost_loop_result [OF l] set_rightmost_loop_keeps [OF l] assms(1)
  have "greater_than_neighbours r" "circ_contour r = circ_contour c" "circ_pos r < length (circ_contour c)"
    by (auto simp: valid_circulator_def)
  moreover have "r = c\<lparr>circ_pos := circ_pos r\<rparr>"
    using \<open>circ_contour r = circ_contour c\<close> by simp
  ultimately show ?thesis
    using assms(3) by metis
qed

lemma constant_contour_no_extremum:
  assumes "set (circ_contour c) \<subseteq> {p}" and "valid_circulator c"
  shows "\<not> less_than_neighbours c" and "\<not> greater_than_neighbours c"
proof -
  from assms have "deref c = p"
    using valid_deref [of c] by auto
  moreover from assms have "circ_prev c = p"
    using valid_deref [of "circ_dec c"] valid_circ_dec [of c] valid_nonempty [of c]
    by (auto simp: circ_prev_def)
  ultimately show "\<not> less_than_neighbours c" and "\<not> greater_than_neighbours c"
    by (simp_all add: less_than_neighbours_def greater_than_neighbours_def)
qed

lemma set_leftmost_twin_diverges: "set_leftmost (circulator [p, p]) = None"
proof (rule set_leftmost_diverges)
  show "valid_circulator (circulator [p, p])"
    by (simp add: valid_circulator_new)
  show "2 \<le> length (circ_contour (circulator [p, p]))"
    by simp
  show "\<not> (\<exists>j<length (circ_contour (circulator [p, p])).
            less_than_neighbours ((circulator [p, p])\<lparr>circ_pos := j\<rparr>))"
    using constant_contour_no_extremum(1) [of _ p]
    by (auto simp: valid_circulator_def)
qed

lemma set_rightmost_twin_diverges: "set_rightmost (circulator [p, p]) = None"
proof (rule set_rightmost_diverges)
  show "valid_circulator (circulator [p, p])"
    by (simp add: valid_circulator_new)
  show "2 \<le> length (circ_contour (circulator [p, p]))"
    by simp
  show "\<not> (\<exists>j<length (circ_contour (circulator [p, p])).
            greater_than_neighbours ((circulator [p, p])\<lparr>circ_pos := j\<rparr>))"
    using constant_contour_no_extremum(2) [of _ p]
    by (auto simp: valid_circulator_def)
qed

text \<open>
  C7 (as amended): on a contour of one vertex \<open>set_leftmost\<close> leaves the circulator
  unchanged; on a contour of two or more vertices it returns whenever some vertex is
  strictly less than both of its circular neighbours, and whenever it returns the
  circulator is over the same contour, at such a vertex.
\<close>

theorem set_leftmost_spec:
  assumes "valid_circulator c"
  shows "(length (circ_contour c) = 1 \<longrightarrow> set_leftmost c = Some c) \<and>
    (2 \<le> length (circ_contour c) \<longrightarrow>
       (\<exists>j<length (circ_contour c). less_than_neighbours (c\<lparr>circ_pos := j\<rparr>)) \<longrightarrow>
       (\<exists>r. set_leftmost c = Some r \<and> circ_contour r = circ_contour c
            \<and> valid_circulator r \<and> less_than_neighbours r)) \<and>
    (2 \<le> length (circ_contour c) \<longrightarrow>
       (\<forall>r. set_leftmost c = Some r \<longrightarrow>
          less_than_neighbours r \<and> circ_contour r = circ_contour c \<and> valid_circulator r))"
proof (intro conjI impI allI)
  assume "length (circ_contour c) = 1"
  with assms show "set_leftmost c = Some c"
    by (rule set_leftmost_single)
next
  let ?n = "length (circ_contour c)" and ?i = "circ_pos c"
  assume n: "2 \<le> ?n" and ex: "\<exists>j<?n. less_than_neighbours (c\<lparr>circ_pos := j\<rparr>)"
  then obtain j where j: "j < ?n" "less_than_neighbours (c\<lparr>circ_pos := j\<rparr>)"
    by blast
  from assms have i: "?i < ?n" by (simp add: valid_circulator_def)
  with j(1) have "(?i + (j + ?n - ?i)) mod ?n = j"
    by simp
  with j(2) have "less_than_neighbours (c\<lparr>circ_pos := (?i + (j + ?n - ?i)) mod ?n\<rparr>)"
    by simp
  from set_leftmost_loop_terminates [OF assms this] obtain r where
    r: "set_leftmost_loop c (circ_dec c) (circ_inc c) = Some r"
    by blast
  with set_leftmost_loop_keeps [OF r] set_leftmost_loop_result [OF r] assms n
  show "\<exists>r. set_leftmost c = Some r \<and> circ_contour r = circ_contour c
            \<and> valid_circulator r \<and> less_than_neighbours r"
    by (simp add: set_leftmost_enters_loop)
next
  fix r
  assume "2 \<le> length (circ_contour c)" and "set_leftmost c = Some r"
  with assms show "less_than_neighbours r"
    using set_leftmost_result by blast
next
  fix r
  assume "2 \<le> length (circ_contour c)" and "set_leftmost c = Some r"
  with assms show "circ_contour r = circ_contour c"
    using set_leftmost_result by blast
next
  fix r
  assume "2 \<le> length (circ_contour c)" and "set_leftmost c = Some r"
  with assms show "valid_circulator r"
    using set_leftmost_result by blast
qed

theorem set_leftmost_spec_witness:
  "set_leftmost \<lparr>circ_contour = [Point 5 5], circ_pos = 0\<rparr>
     = Some \<lparr>circ_contour = [Point 5 5], circ_pos = 0\<rparr>
   \<and> (\<exists>r. set_leftmost \<lparr>circ_contour = [Point 0 0, Point 1 0, Point 0 1], circ_pos = 1\<rparr> = Some r
          \<and> circ_contour r = [Point 0 0, Point 1 0, Point 0 1]
          \<and> valid_circulator r \<and> less_than_neighbours r)"
proof -
  have v1: "valid_circulator \<lparr>circ_contour = [Point 5 5], circ_pos = 0\<rparr>"
    by (simp add: valid_circulator_def)
  have v3: "valid_circulator \<lparr>circ_contour = [Point 0 0, Point 1 0, Point 0 1], circ_pos = 1\<rparr>"
    by (simp add: valid_circulator_def)
  have "less_than_neighbours \<lparr>circ_contour = [Point 0 0, Point 1 0, Point 0 1], circ_pos = 0\<rparr>"
    by (simp add: less_than_neighbours_def deref_def circ_prev_def circ_next_def circ_dec_def
        circ_inc_def less_point_def)
  then have ex: "\<exists>j<length [Point 0 0, Point 1 0, Point 0 1]. less_than_neighbours
      (\<lparr>circ_contour = [Point 0 0, Point 1 0, Point 0 1], circ_pos = 1\<rparr>\<lparr>circ_pos := j\<rparr>)"
    by (intro exI [of _ 0]) simp
  show ?thesis
    using set_leftmost_spec [OF v1] set_leftmost_spec [OF v3] ex
    by simp
qed

text \<open>
  The claim as written leaves the circulator unchanged on every contour of at most two
  vertices; on two distinct vertices, started at the greater one, it moves.
\<close>

theorem set_leftmost_pair_counterexample:
  "length (circ_contour \<lparr>circ_contour = [Point 0 0, Point 1 0], circ_pos = 1\<rparr>) \<le> 2
   \<and> set_leftmost \<lparr>circ_contour = [Point 0 0, Point 1 0], circ_pos = 1\<rparr>
       = Some \<lparr>circ_contour = [Point 0 0, Point 1 0], circ_pos = 0\<rparr>
   \<and> set_leftmost \<lparr>circ_contour = [Point 0 0, Point 1 0], circ_pos = 1\<rparr>
       \<noteq> Some \<lparr>circ_contour = [Point 0 0, Point 1 0], circ_pos = 1\<rparr>"
  using set_leftmost_pair_moves by simp

section \<open>Inputs on which the hull is never returned\<close>

lemma is_on_one_line2_append: "is_on_one_line2 A B = is_on_one_line (A @ B)"
  by (simp add: is_on_one_line2_def Let_def fold_add_point empty_builder_def get_result_def)

lemma turn_same: "turn a a c = COLLINEAR" "turn a b b = COLLINEAR" "turn a b a = COLLINEAR"
  by (simp_all add: turn_def point_sub_def cross_def sgn_scalar_def)

lemma merge_hull_impl_small: "length pts \<le> 2 \<Longrightarrow> merge_hull_impl pts = Some pts"
  by (subst merge_hull_impl.simps)
    (simp add: fold_add_point get_result_def empty_builder_def)

lemma merge_single_twin_diverges: "merge [p] [p, p] = None"
proof -
  have "is_on_one_line2 [p] [p, p]"
    by (simp add: is_on_one_line2_append is_on_one_line_def turn_same)
  then show ?thesis
    by (simp add: merge_def build_oneline_contour_def set_leftmost_twin_diverges)
qed

text \<open>
  C4 fails on the code: three equal points are a well-formed input of at least two
  points, and \<open>merge_hull\<close> does not return on it.  The right half \<open>[p, p]\<close> has no
  vertex strictly less than its neighbour, so the loop of \<^verbatim>\<open>set_leftmost\<close> runs forever.
\<close>

theorem merge_hull_triple_diverges: "merge_hull [p, p, p] = None"
proof -
  have "merge_hull_impl [p, p, p] = None"
    by (subst merge_hull_impl.simps)
      (simp add: middle_def merge_hull_impl_small merge_single_twin_diverges)
  moreover have "sort [p, p, p] = [p, p, p]"
    by simp
  ultimately show ?thesis
    by (simp add: merge_hull_def)
qed

section \<open>The collinearity test of the merge\<close>

text \<open>
  The test reads the concatenation of the two point sequences three consecutive points
  at a time.  Points that are all on one line pass it; so does every triple with a
  repeated point, whatever the third point is.
\<close>

lemma triples_collinear_iff:
  "triples_collinear xs \<longleftrightarrow>
     (\<forall>i. i + 2 < length xs \<longrightarrow> turn (xs ! i) (xs ! (i + 1)) (xs ! (i + 2)) = COLLINEAR)"
  by (auto simp: triples_collinear_def list_all_iff)

lemma triples_collinear_Cons:
  "triples_collinear (a # b # c # rest) \<longleftrightarrow>
     turn a b c = COLLINEAR \<and> triples_collinear (b # c # rest)"
proof
  assume t: "triples_collinear (a # b # c # rest)"
  then have "turn a b c = COLLINEAR"
    unfolding triples_collinear_iff by (elim allE [of _ 0]) simp
  moreover have "triples_collinear (b # c # rest)"
    unfolding triples_collinear_iff
  proof (intro allI impI)
    fix i assume "i + 2 < length (b # c # rest)"
    with t show "turn ((b # c # rest) ! i) ((b # c # rest) ! (i + 1)) ((b # c # rest) ! (i + 2)) = COLLINEAR"
      unfolding triples_collinear_iff by (elim allE [of _ "Suc i"]) simp
  qed
  ultimately show "turn a b c = COLLINEAR \<and> triples_collinear (b # c # rest)" ..
next
  assume t: "turn a b c = COLLINEAR \<and> triples_collinear (b # c # rest)"
  show "triples_collinear (a # b # c # rest)"
    unfolding triples_collinear_iff
  proof (intro allI impI)
    fix i assume i: "i + 2 < length (a # b # c # rest)"
    show "turn ((a # b # c # rest) ! i) ((a # b # c # rest) ! (i + 1)) ((a # b # c # rest) ! (i + 2)) = COLLINEAR"
    proof (cases i)
      case 0
      with t show ?thesis by simp
    next
      case (Suc j)
      with i t show ?thesis
        unfolding triples_collinear_iff by (elim conjE allE [of _ j]) simp
    qed
  qed
qed

lemma triples_collinear_short: "length xs \<le> 2 \<Longrightarrow> triples_collinear xs"
  by (simp add: triples_collinear_def)

lemma is_on_one_line_loop_iff: "is_on_one_line_loop xs \<longleftrightarrow> triples_collinear xs"
proof (induction xs rule: is_on_one_line_loop.induct)
  case (1 a b c rest)
  then show ?case
    by (simp add: triples_collinear_Cons)
qed (simp_all add: triples_collinear_short)

lemma is_on_one_line_iff: "is_on_one_line xs \<longleftrightarrow> triples_collinear xs"
  by (simp add: is_on_one_line_def is_on_one_line_loop_iff triples_collinear_short)

lemma collinear_set_triples: "collinear_set (set xs) \<Longrightarrow> triples_collinear xs"
  by (simp add: triples_collinear_iff collinear_set_def)

lemma turn_collinear_iff:
  "turn a b c = COLLINEAR \<longleftrightarrow>
     (px b - px a) * (py c - py a) - (py b - py a) * (px c - px a) = 0"
  by (simp add: turn_def point_sub_def cross_def sgn_scalar_def Let_def)

lemma parallel_trans:
  fixes u1 u2 v1 v2 w1 w2 :: int
  assumes "u1 * v2 - u2 * v1 = 0" and "v1 * w2 - v2 * w1 = 0" and "v1 \<noteq> 0 \<or> v2 \<noteq> 0"
  shows "u1 * w2 - u2 * w1 = 0"
proof -
  have "v1 * (u1 * w2 - u2 * w1) = 0"
    using assms(1,2) by algebra
  moreover have "v2 * (u1 * w2 - u2 * w1) = 0"
    using assms(1,2) by algebra
  ultimately show ?thesis
    using assms(3) by auto
qed

lemma collinear_extend:
  assumes "turn a b c = COLLINEAR" and "turn b c p = COLLINEAR" and "b \<noteq> c"
  shows "turn a b p = COLLINEAR"
proof -
  obtain ax ay bx "by" cx cy qx qy where
    [simp]: "a = Point ax ay" "b = Point bx by" "c = Point cx cy" "p = Point qx qy"
    by (cases a, cases b, cases c, cases p) blast
  from assms(3) have nz: "cx - bx \<noteq> 0 \<or> cy - by \<noteq> 0"
    by auto
  from assms(1) have 1: "(bx - ax) * (cy - by) - (by - ay) * (cx - bx) = 0"
    by (simp add: turn_collinear_iff algebra_simps)
  from assms(2) have 2: "(cx - bx) * (qy - by) - (cy - by) * (qx - bx) = 0"
    by (simp add: turn_collinear_iff)
  from parallel_trans [OF 1 2 nz] show ?thesis
    by (simp add: turn_collinear_iff algebra_simps)
qed

lemma collinear_on_line:
  assumes "a \<noteq> b" and "turn a b p = COLLINEAR" and "turn a b q = COLLINEAR"
    and "turn a b r = COLLINEAR"
  shows "turn p q r = COLLINEAR"
proof -
  obtain ax ay bx "by" px' py' qx qy rx ry where
    [simp]: "a = Point ax ay" "b = Point bx by" "p = Point px' py'" "q = Point qx qy"
      "r = Point rx ry"
    by (cases a, cases b, cases p, cases q, cases r) blast
  from assms(1) have nz: "bx - ax \<noteq> 0 \<or> by - ay \<noteq> 0"
    by auto
  from assms(2,3) have 1: "(qx - px') * (by - ay) - (qy - py') * (bx - ax) = 0"
    by (simp add: turn_collinear_iff algebra_simps)
  from assms(2,4) have 2: "(bx - ax) * (ry - py') - (by - ay) * (rx - px') = 0"
    by (simp add: turn_collinear_iff algebra_simps)
  from parallel_trans [OF 1 2 nz] show ?thesis
    by (simp add: turn_collinear_iff)
qed

lemma triples_on_first_line:
  "distinct_adj (a # b # xs) \<Longrightarrow> triples_collinear (a # b # xs) \<Longrightarrow>
     \<forall>p\<in>set (a # b # xs). turn a b p = COLLINEAR"
proof (induction xs arbitrary: a b)
  case Nil
  then show ?case by (simp add: turn_same)
next
  case (Cons c ys)
  from Cons.prems have abc: "turn a b c = COLLINEAR" and t: "triples_collinear (b # c # ys)"
    by (simp_all add: triples_collinear_Cons)
  from Cons.prems have bc: "b \<noteq> c" and d: "distinct_adj (b # c # ys)"
    by simp_all
  from Cons.IH [OF d t] have "\<forall>p\<in>set (b # c # ys). turn b c p = COLLINEAR" .
  with abc bc have "\<forall>p\<in>set (b # c # ys). turn a b p = COLLINEAR"
    using collinear_extend by blast
  then show ?case
    by (simp add: turn_same)
qed

lemma triples_collinear_set:
  assumes "distinct_adj xs" and "triples_collinear xs"
  shows "collinear_set (set xs)"
proof (cases xs)
  case Nil
  then show ?thesis by (simp add: collinear_set_def)
next
  case (Cons a ys)
  show ?thesis
  proof (cases ys)
    case Nil
    with Cons show ?thesis by (simp add: collinear_set_def turn_same)
  next
    case (Cons b zs)
    with \<open>xs = a # ys\<close> assms have "a \<noteq> b" and "\<forall>p\<in>set xs. turn a b p = COLLINEAR"
      using triples_on_first_line [of a b zs] by simp_all
    then show ?thesis
      unfolding collinear_set_def using collinear_on_line by blast
  qed
qed

lemma turn_eval:
  "turn (Point ax ay) (Point bx by) (Point cx cy) =
     (if (bx - ax) * (cy - ay) - (by - ay) * (cx - ax) < 0 then RIGHT
      else if (bx - ax) * (cy - ay) - (by - ay) * (cx - ax) = 0 then COLLINEAR else LEFT)"
  by (simp add: turn_def point_sub_def cross_def sgn_scalar_def)

text \<open>
  Without a repeated neighbour the test is what its name says: when no two consecutive
  points of the concatenation coincide, it returns true exactly when all the points of
  \<open>A\<close> and \<open>B\<close> are on one line.
\<close>

lemma is_on_one_line2_distinct_adj:
  assumes "distinct_adj (A @ B)"
  shows "is_on_one_line2 A B \<longleftrightarrow> collinear_set (set A \<union> set B)"
proof
  assume "is_on_one_line2 A B"
  then have "triples_collinear (A @ B)"
    by (simp add: is_on_one_line2_append is_on_one_line_iff)
  with assms show "collinear_set (set A \<union> set B)"
    using triples_collinear_set [of "A @ B"] by simp
next
  assume "collinear_set (set A \<union> set B)"
  then show "is_on_one_line2 A B"
    using collinear_set_triples [of "A @ B"]
    by (simp add: is_on_one_line2_append is_on_one_line_iff)
qed

text \<open>
  C6 fails on the code: on the sorted input \<open>(0, 0), (1, 0), (1, 0), (2, 1)\<close> the merge at
  the top is of \<open>A = (0, 0), (1, 0)\<close> and \<open>B = (1, 0), (2, 1)\<close>.  The test returns true
  and the tangent-based merging is bypassed, although \<open>(0, 0), (1, 0), (2, 1)\<close> is a
  \<open>LEFT\<close> turn and the points of \<open>A\<close> and \<open>B\<close> are not collinear: both triples of
  consecutive points hold \<open>(1, 0)\<close> twice.
\<close>

theorem is_on_one_line2_false_positive:
  "merge_hull_impl [Point 0 0, Point 1 0, Point 1 0, Point 2 1]
     = merge [Point 0 0, Point 1 0] [Point 1 0, Point 2 1]
   \<and> is_on_one_line2 [Point 0 0, Point 1 0] [Point 1 0, Point 2 1]
   \<and> merge [Point 0 0, Point 1 0] [Point 1 0, Point 2 1]
       = build_oneline_contour [Point 0 0, Point 1 0] [Point 1 0, Point 2 1]
   \<and> turn (Point 0 0) (Point 1 0) (Point 2 1) = LEFT
   \<and> \<not> collinear_contour ([Point 0 0, Point 1 0] @ [Point 1 0, Point 2 1])"
proof -
  have h: "merge_hull_impl [Point 0 0, Point 1 0, Point 1 0, Point 2 1]
     = merge [Point 0 0, Point 1 0] [Point 1 0, Point 2 1]"
    by (subst merge_hull_impl.simps) (simp add: middle_def merge_hull_impl_small)
  have t: "is_on_one_line2 [Point 0 0, Point 1 0] [Point 1 0, Point 2 1]"
    by (simp add: is_on_one_line2_append is_on_one_line_def turn_eval)
  then have m: "merge [Point 0 0, Point 1 0] [Point 1 0, Point 2 1]
       = build_oneline_contour [Point 0 0, Point 1 0] [Point 1 0, Point 2 1]"
    by (simp add: merge_def)
  have l: "turn (Point 0 0) (Point 1 0) (Point 2 1) = LEFT"
    by (simp add: turn_eval)
  have c: "\<not> collinear_contour ([Point 0 0, Point 1 0] @ [Point 1 0, Point 2 1])"
    by (simp add: collinear_contour_def turn_eval)
  from h t m l c show ?thesis
    by blast
qed

section \<open>Inputs with repeated points on which the hull is wrong\<close>

text \<open>
  The merge engine is written for points that are pairwise distinct.  A repeated point
  makes every triple it stands in twice collinear, so the collinearity test takes
  contours for one-line paths that are not, and it makes a tangent between two equal
  points pass every tangency test.  The three inputs below are evaluated on the model.
\<close>

lemma hull_spike:
  "merge_hull [Point 0 0, Point 0 0, Point 1 1, Point 1 2, Point 2 0, Point 2 1]
     = Some (Inr [Point 0 0, Point 1 1, Point 0 0, Point 2 0, Point 2 1, Point 1 2])"
  by code_simp

lemma hull_false_line:
  "merge_hull [Point 1 0, Point 1 1, Point 1 2, Point 1 2, Point 2 0, Point 2 0, Point 2 2]
     = Some (Inr [Point 1 0, Point 1 1, Point 1 2, Point 1 2, Point 2 0, Point 2 0, Point 2 2])"
  by code_simp

lemma hull_with_twin_vertex:
  "merge_hull [Point 0 3, Point 1 0, Point 1 0, Point 1 1, Point 1 2, Point 2 0, Point 2 1, Point 3 2]
     = Some (Inr [Point 0 3, Point 1 0, Point 1 0, Point 2 0, Point 3 2])"
  by code_simp

lemma rehull_twin_vertex:
  "merge_hull [Point 0 3, Point 1 0, Point 1 0, Point 2 0, Point 3 2]
     = Some (Inr [Point 1 0, Point 1 0])"
  by code_simp

text \<open>
  C1 fails on the code: on six points, \<open>(0, 0)\<close> given twice, the returned contour
  has the edge from \<open>(0, 0)\<close> to \<open>(1, 1)\<close> and the edge back, and the input point
  \<open>(2, 0)\<close> is strictly to the right of the first and strictly to the left of the
  second: the orientation predicate finds it outside under either orientation.
\<close>

theorem merge_hull_containment_fails:
  "merge_hull [Point 0 0, Point 0 0, Point 1 1, Point 1 2, Point 2 0, Point 2 1]
     = Some (Inr [Point 0 0, Point 1 1, Point 0 0, Point 2 0, Point 2 1, Point 1 2])
   \<and> \<not> contains_points [Point 0 0, Point 1 1, Point 0 0, Point 2 0, Point 2 1, Point 1 2]
          [Point 0 0, Point 0 0, Point 1 1, Point 1 2, Point 2 0, Point 2 1]
   \<and> (Point 0 0, Point 1 1)
        \<in> set (hull_edges [Point 0 0, Point 1 1, Point 0 0, Point 2 0, Point 2 1, Point 1 2])
   \<and> turn (Point 0 0) (Point 1 1) (Point 2 0) = RIGHT
   \<and> (Point 1 1, Point 0 0)
        \<in> set (hull_edges [Point 0 0, Point 1 1, Point 0 0, Point 2 0, Point 2 1, Point 1 2])
   \<and> turn (Point 1 1) (Point 0 0) (Point 2 0) = LEFT"
  using hull_spike by (simp add: contains_points_def hull_edges_def turn_eval)

text \<open>
  C2 fails on the code: on seven points, \<open>(1, 2)\<close> and \<open>(2, 0)\<close> given twice, the
  returned contour is the sorted input itself; read cyclically it has a \<open>RIGHT\<close> turn
  at \<open>(2, 2), (1, 0), (1, 1)\<close> and a \<open>LEFT\<close> turn at \<open>(2, 0), (2, 2), (1, 0)\<close>, and
  its vertices are not collinear.
\<close>

theorem merge_hull_convexity_fails:
  "merge_hull [Point 1 0, Point 1 1, Point 1 2, Point 1 2, Point 2 0, Point 2 0, Point 2 2]
     = Some (Inr [Point 1 0, Point 1 1, Point 1 2, Point 1 2, Point 2 0, Point 2 0, Point 2 2])
   \<and> \<not> no_right_turn [Point 1 0, Point 1 1, Point 1 2, Point 1 2, Point 2 0, Point 2 0, Point 2 2]
   \<and> \<not> collinear_contour
          [Point 1 0, Point 1 1, Point 1 2, Point 1 2, Point 2 0, Point 2 0, Point 2 2]
   \<and> (Point 2 2, Point 1 0, Point 1 1) \<in> set (consecutive_triples
          [Point 1 0, Point 1 1, Point 1 2, Point 1 2, Point 2 0, Point 2 0, Point 2 2])
   \<and> turn (Point 2 2) (Point 1 0) (Point 1 1) = RIGHT
   \<and> (Point 2 0, Point 2 2, Point 1 0) \<in> set (consecutive_triples
          [Point 1 0, Point 1 1, Point 1 2, Point 1 2, Point 2 0, Point 2 0, Point 2 2])
   \<and> turn (Point 2 0) (Point 2 2) (Point 1 0) = LEFT"
  using hull_false_line
  by (simp add: no_right_turn_def collinear_contour_def consecutive_triples_def turn_eval)

text \<open>
  C9 fails on the code: on eight points, \<open>(1, 0)\<close> given twice, the returned contour
  has five vertices, and \<open>merge_hull\<close> applied to these five vertices returns the
  contour \<open>(1, 0), (1, 0)\<close>, whose vertex set is a different one.
\<close>

theorem merge_hull_not_idempotent:
  "merge_hull [Point 0 3, Point 1 0, Point 1 0, Point 1 1, Point 1 2, Point 2 0, Point 2 1, Point 3 2]
     = Some (Inr [Point 0 3, Point 1 0, Point 1 0, Point 2 0, Point 3 2])
   \<and> merge_hull [Point 0 3, Point 1 0, Point 1 0, Point 2 0, Point 3 2]
     = Some (Inr [Point 1 0, Point 1 0])
   \<and> set [Point 1 0, Point 1 0] \<noteq> set [Point 0 3, Point 1 0, Point 1 0, Point 2 0, Point 3 2]"
  using hull_with_twin_vertex rehull_twin_vertex by auto

end
